theory Spec2Isabelle
  imports Main "HOL-Library.Word"
begin

unbundle bit_operations_syntax

section \<open>Dependency identifiers (class TaskID)\<close>

text \<open>
  The header declares \<^verbatim>\<open>class TaskID\<close> with one private member,
  \<^verbatim>\<open>std::vector<std::bitset<BITBLOCK>> bitblocks\<close>, and \<^verbatim>\<open>#define BITBLOCK 16\<close>.
  A bit block is a 16-bit word, an identifier is the sequence of its blocks,
  block 0 first.
\<close>

type_synonym bitblock = "16 word"

datatype TaskID = TaskID (bitblocks: "bitblock list")

definition BITBLOCK :: int where
  "BITBLOCK = 16"

text \<open>
  Modelled from the spec: the bodies of the member functions of TaskID (\<^verbatim>\<open>Set\<close>,
  \<^verbatim>\<open>clear\<close>, \<^verbatim>\<open>CheckDependencies\<close>, \<^verbatim>\<open>SetFinished\<close>, \<^verbatim>\<open>operator==\<close>,
  \<^verbatim>\<open>operator|\<close>) are only declared in the header; their definitions are in a
  file that is not part of the sources at hand. The spec (section 4.1) says:
  \<^item> construct from an integer index: sets exactly one bit corresponding to that
    index (1-based); building from index 0 yields a zero-bit identifier;
  \<^item> union: bitwise OR across all underlying blocks, growing the block sequence
    as needed so no bits are lost;
  \<^item> satisfaction check: every bit set in the dependency must also be set in
    the completed-set;
  \<^item> mark-finished: OR the given identity's bits into the completed-set;
  \<^item> equality: bitwise equality across block sequences of possibly different
    lengths, the shorter sequence treated as zero-padded.
  Index \<open>k \<ge> 1\<close> is bit \<open>(k - 1) mod 16\<close> of block \<open>(k - 1) div 16\<close>. The spec
  gives these operations for non-negative indices only; the model sends a
  negative index to the zero-bit identifier, and nothing below depends on it.
\<close>

definition Set_id :: "int \<Rightarrow> TaskID" where
  "Set_id i =
     (if i \<le> 0 then TaskID [0]
      else TaskID (replicate (nat ((i - 1) div BITBLOCK)) 0
                   @ [push_bit (nat ((i - 1) mod BITBLOCK)) 1]))"

text \<open>Modelled from the spec: \<^verbatim>\<open>TaskID::clear\<close> (declared only) resets every bit of
  every block; the blocks themselves stay.\<close>

definition clear :: "TaskID \<Rightarrow> TaskID" where
  "clear t = TaskID (map (\<lambda>_. 0) (bitblocks t))"

text \<open>Blockwise OR of two block sequences; the longer one supplies the tail.\<close>

fun or_blocks :: "bitblock list \<Rightarrow> bitblock list \<Rightarrow> bitblock list" where
  "or_blocks [] ys = ys"
| "or_blocks (x # xs) [] = x # xs"
| "or_blocks (x # xs) (y # ys) = (x OR y) # or_blocks xs ys"

text \<open>\<open>check_blocks cs ds\<close>: every bit of \<open>ds\<close> is a bit of \<open>cs\<close>; a block that
  \<open>cs\<close> does not have counts as zero.\<close>

fun check_blocks :: "bitblock list \<Rightarrow> bitblock list \<Rightarrow> bool" where
  "check_blocks cs [] = True"
| "check_blocks [] (d # ds) = (d = 0 \<and> check_blocks [] ds)"
| "check_blocks (c # cs) (d # ds) = ((c AND d) = d \<and> check_blocks cs ds)"

fun eq_blocks :: "bitblock list \<Rightarrow> bitblock list \<Rightarrow> bool" where
  "eq_blocks [] [] = True"
| "eq_blocks [] (y # ys) = (y = 0 \<and> eq_blocks [] ys)"
| "eq_blocks (x # xs) [] = (x = 0 \<and> eq_blocks xs [])"
| "eq_blocks (x # xs) (y # ys) = (x = y \<and> eq_blocks xs ys)"

text \<open>Modelled from the spec: \<^verbatim>\<open>this->CheckDependencies(rhs)\<close> (declared only);
  the receiver is the completed-set, the argument the dependency.\<close>

definition CheckDependencies :: "TaskID \<Rightarrow> TaskID \<Rightarrow> bool" where
  "CheckDependencies this rhs = check_blocks (bitblocks this) (bitblocks rhs)"

text \<open>Modelled from the spec: \<^verbatim>\<open>this->SetFinished(rhs)\<close> (declared only), returning
  the updated receiver.\<close>

definition SetFinished :: "TaskID \<Rightarrow> TaskID \<Rightarrow> TaskID" where
  "SetFinished this rhs = TaskID (or_blocks (bitblocks this) (bitblocks rhs))"

text \<open>Modelled from the spec: \<^verbatim>\<open>operator|\<close> (declared only).\<close>

definition union_id :: "TaskID \<Rightarrow> TaskID \<Rightarrow> TaskID" where
  "union_id a b = TaskID (or_blocks (bitblocks a) (bitblocks b))"

text \<open>Modelled from the spec: \<^verbatim>\<open>operator==\<close> (declared only).\<close>

definition equal_id :: "TaskID \<Rightarrow> TaskID \<Rightarrow> bool" where
  "equal_id a b = eq_blocks (bitblocks a) (bitblocks b)"

section \<open>Tasks\<close>

text \<open>
  Modelled from the spec: \<^verbatim>\<open>enum class TaskStatus\<close> is declared in
  \<^verbatim>\<open>basic_types.hpp\<close>, which is not part of the sources at hand. The spec
  (section 4.2) gives a task body two results, complete and incomplete, and the
  task bodies in \<^verbatim>\<open>container.hpp\<close> return these two.
\<close>

datatype TaskStatus = TaskStatus_complete | TaskStatus_incomplete

datatype TaskListStatus =
  TaskListStatus_running | TaskListStatus_stuck | TaskListStatus_complete
  | TaskListStatus_nothing_to_do

text \<open>
  \<^verbatim>\<open>class BaseTask\<close> holds \<^verbatim>\<open>_myid\<close>, \<^verbatim>\<open>_dep\<close> and \<^verbatim>\<open>_complete\<close>; its
  subclasses (SimpleTask, BlockTask, BlockStageTask, ...) add a
  \<^verbatim>\<open>std::function\<close> and the arguments it is called with, and their
  \<^verbatim>\<open>operator()\<close> is that call. A body may read and write anything it has captured
  (mesh block, containers, communication buffers): the model threads a state
  \<open>'w\<close> of everything outside the task list through every call, and a body is a
  function from this state to its status and the new state. Bodies that throw
  and bodies that call back into the task list that runs them are outside the
  model.
\<close>

record 'w BaseTask =
  myid :: TaskID
  dep :: TaskID
  complete :: bool
  func :: "'w \<Rightarrow> TaskStatus \<times> 'w"

definition GetID :: "'w BaseTask \<Rightarrow> TaskID" where
  "GetID t = myid t"

definition GetDependency :: "'w BaseTask \<Rightarrow> TaskID" where
  "GetDependency t = dep t"

definition SetComplete :: "'w BaseTask \<Rightarrow> 'w BaseTask" where
  "SetComplete t = t\<lparr>complete := True\<rparr>"

definition Task_IsComplete :: "'w BaseTask \<Rightarrow> bool" where
  "Task_IsComplete t = complete t"

section \<open>Task lists\<close>

text \<open>
  \<^verbatim>\<open>class TaskList\<close>: the pending tasks in insertion order, the counter
  \<^verbatim>\<open>_tasks_added\<close>, the barrier lists \<^verbatim>\<open>_dependencies\<close> (pointers to other task
  lists, here addresses into a store of task lists) and the completed-set
  \<^verbatim>\<open>_tasks_completed\<close>.

  The counter is a C++ \<^verbatim>\<open>int\<close>, 32 bits in two's complement on the platforms
  the program is built for. \<open>int_wrap x\<close> is the value such an \<^verbatim>\<open>int\<close> holds
  when the exact result of an addition is \<open>x\<close>: \<open>x\<close> itself from \<open>-2^31\<close> to
  \<open>INT_MAX = 2^31 - 1\<close>, and the wrapped value beyond (C++ leaves signed
  overflow undefined; the model writes out what the hardware does).
\<close>

definition INT_MAX :: int where
  "INT_MAX = 2147483647"

definition int_wrap :: "int \<Rightarrow> int" where
  "int_wrap x = (x + 2147483648) mod 4294967296 - 2147483648"

record 'w TaskList =
  task_list :: "'w BaseTask list"
  tasks_added :: int
  dependencies :: "nat list"
  tasks_completed :: TaskID

type_synonym 'w store = "nat \<Rightarrow> 'w TaskList option"

text \<open>The implicit constructor: the member initialisers and \<^verbatim>\<open>TaskID() { Set(0); }\<close>.\<close>

definition TaskList_new :: "'w TaskList" where
  "TaskList_new =
     \<lparr>task_list = [], tasks_added = 0, dependencies = [], tasks_completed = Set_id 0\<rparr>"

definition IsComplete :: "'w TaskList \<Rightarrow> bool" where
  "IsComplete lst = (task_list lst = [])"

definition Size :: "'w TaskList \<Rightarrow> int" where
  "Size lst = int_wrap (int (length (task_list lst)))"

definition Reset :: "'w TaskList \<Rightarrow> 'w TaskList" where
  "Reset lst =
     lst\<lparr>tasks_added := 0, task_list := [], dependencies := [],
        tasks_completed := clear (tasks_completed lst)\<rparr>"

text \<open>\<^verbatim>\<open>IsReady\<close> reads the lists its pointers refer to; a pointer to no list is
  \<open>None\<close> (undefined behaviour in the source).\<close>

fun IsReady_loop :: "'w store \<Rightarrow> nat list \<Rightarrow> bool option" where
  "IsReady_loop h [] = Some True"
| "IsReady_loop h (l # ls) =
     (case h l of
        None \<Rightarrow> None
      | Some other \<Rightarrow> if \<not> IsComplete other then Some False else IsReady_loop h ls)"

definition IsReady :: "'w store \<Rightarrow> 'w TaskList \<Rightarrow> bool option" where
  "IsReady h lst = IsReady_loop h (dependencies lst)"

definition MarkTaskComplete :: "'w TaskList \<Rightarrow> TaskID \<Rightarrow> 'w TaskList" where
  "MarkTaskComplete lst i = lst\<lparr>tasks_completed := SetFinished (tasks_completed lst) i\<rparr>"

text \<open>The loop of \<^verbatim>\<open>ClearComplete\<close>: erase the tasks whose flag is set, keep the
  others in order.\<close>

fun erase_complete :: "'w BaseTask list \<Rightarrow> 'w BaseTask list" where
  "erase_complete [] = []"
| "erase_complete (task # rest) =
     (if Task_IsComplete task then erase_complete rest else task # erase_complete rest)"

definition ClearComplete :: "'w TaskList \<Rightarrow> 'w TaskList" where
  "ClearComplete lst = lst\<lparr>task_list := erase_complete (task_list lst)\<rparr>"

text \<open>
  The body of the loop of \<^verbatim>\<open>DoAvailable\<close> for one task: \<open>done\<close> is
  \<^verbatim>\<open>_tasks_completed\<close> when the loop reaches the task. The result is the task
  (flagged when its body returned complete), the new completed-set and the new
  outside state. \<^verbatim>\<open>MarkTaskComplete(id)\<close> is \<^verbatim>\<open>_tasks_completed.SetFinished(id)\<close>.
\<close>

definition visit ::
  "'w BaseTask \<Rightarrow> TaskID \<Rightarrow> 'w \<Rightarrow> 'w BaseTask \<times> TaskID \<times> 'w" where
  "visit task done w =
     (if CheckDependencies done (GetDependency task) then
        (case func task w of
           (status, w') \<Rightarrow>
             if status = TaskStatus_complete
             then (SetComplete task, SetFinished done (GetID task), w')
             else (task, done, w'))
      else (task, done, w))"

fun scan ::
  "'w BaseTask list \<Rightarrow> TaskID \<Rightarrow> 'w \<Rightarrow> 'w BaseTask list \<times> TaskID \<times> 'w" where
  "scan [] done w = ([], done, w)"
| "scan (task # rest) done w =
     (case visit task done w of
        (task', done', w') \<Rightarrow>
          (case scan rest done' w' of
             (rest', done'', w'') \<Rightarrow> (task' # rest', done'', w'')))"

definition DoAvailable ::
  "'w TaskList \<Rightarrow> 'w \<Rightarrow> TaskListStatus \<times> 'w TaskList \<times> 'w" where
  "DoAvailable lst w =
     (case scan (task_list lst) (tasks_completed lst) w of
        (tasks, done, w') \<Rightarrow>
          (let lst' = ClearComplete (lst\<lparr>task_list := tasks, tasks_completed := done\<rparr>)
           in (if IsComplete lst' then TaskListStatus_complete
               else TaskListStatus_running, lst', w')))"

text \<open>\<^verbatim>\<open>AddTask<T>(args...)\<close>: the arguments are the body and the dependency the
  constructor of \<^verbatim>\<open>T\<close> takes; the result is the identity and the new list.\<close>

definition AddTask ::
  "'w TaskList \<Rightarrow> ('w \<Rightarrow> TaskStatus \<times> 'w) \<Rightarrow> TaskID \<Rightarrow> TaskID \<times> 'w TaskList" where
  "AddTask lst f d =
     (let n = int_wrap (tasks_added lst + 1); i = Set_id n
      in (i, lst\<lparr>task_list := task_list lst @ [\<lparr>myid = i, dep = d, complete = False, func = f\<rparr>],
                tasks_added := n\<rparr>))"

text \<open>
  A body can also throw instead of returning; the fault then leaves
  \<^verbatim>\<open>DoAvailable\<close>, which catches nothing (spec section 7). \<open>func\<close> describes the
  calls of a body that return. \<open>DoAvailable_throws lst w i\<close> is the call of
  \<^verbatim>\<open>DoAvailable\<close> that the body of the \<open>i\<close>-th pending task leaves by a throw:
  the loop has handled the tasks before it, its dependency is satisfied, its
  body is called and throws, and the rest of the loop, \<^verbatim>\<open>ClearComplete\<close> and the
  return are not executed. The result is the list as the throw leaves it, with
  the outside state in which the body was entered (what the body did to it
  before it threw is left out); it is \<open>None\<close> when the loop does not call the
  body of the \<open>i\<close>-th task.
\<close>

definition DoAvailable_throws :: "'w TaskList \<Rightarrow> 'w \<Rightarrow> nat \<Rightarrow> ('w TaskList \<times> 'w) option" where
  "DoAvailable_throws lst w i =
     (case scan (take i (task_list lst)) (tasks_completed lst) w of
        (tasks, done, w') \<Rightarrow>
          if i < length (task_list lst)
             \<and> CheckDependencies done (GetDependency (task_list lst ! i))
          then Some (lst\<lparr>task_list := tasks @ drop i (task_list lst),
                         tasks_completed := done\<rparr>, w')
          else None)"

section \<open>Observing a run\<close>

text \<open>
  Which bodies \<^verbatim>\<open>DoAvailable\<close> calls is observed through the bodies themselves.
  \<open>probe j t\<close> is the task \<open>t\<close> with a body that does what the body of \<open>t\<close>
  does and then writes the tag \<open>j\<close> and the status it returns at the end of a
  log kept in the outside state. \<open>probed lst\<close> is the list \<open>lst\<close> with every
  pending task probed, the tag being its position in \<open>task_list lst\<close>.
  \<open>DoAvailable_runs lst w\<close> is the log after one call of \<^verbatim>\<open>DoAvailable\<close> on the
  probed list, \<open>poll_runs k lst w\<close> the log after \<open>k\<close> calls: an entry \<open>(j, st)\<close>
  says that the body of the task at position \<open>j\<close> of \<open>task_list lst\<close> was called
  and returned \<open>st\<close>, and the entries are in the order of the calls.
\<close>

type_synonym run_log = "(nat \<times> TaskStatus) list"

definition probe :: "nat \<Rightarrow> 'w BaseTask \<Rightarrow> ('w \<times> run_log) BaseTask" where
  "probe j t =
     \<lparr>myid = myid t, dep = dep t, complete = complete t,
      func = (\<lambda>(w, lg). case func t w of (st, w') \<Rightarrow> (st, (w', lg @ [(j, st)])))\<rparr>"

definition probes :: "nat \<Rightarrow> 'w BaseTask list \<Rightarrow> ('w \<times> run_log) BaseTask list" where
  "probes i ts = map (\<lambda>(j, t). probe j t) (enumerate i ts)"

definition probed :: "'w TaskList \<Rightarrow> ('w \<times> run_log) TaskList" where
  "probed lst =
     \<lparr>task_list = probes 0 (task_list lst), tasks_added = tasks_added lst,
      dependencies = dependencies lst, tasks_completed = tasks_completed lst\<rparr>"

definition DoAvailable_runs :: "'w TaskList \<Rightarrow> 'w \<Rightarrow> run_log" where
  "DoAvailable_runs lst w = snd (snd (snd (DoAvailable (probed lst) (w, []))))"

text \<open>
  A second view of a scan, used in the statements about replay and in the
  proofs: what one iteration of the loop of \<^verbatim>\<open>DoAvailable\<close> did, namely the task
  the loop reached, the completed-set at that moment, and the status its body
  returned, or \<open>None\<close> when the body was not called. The program keeps no such
  record; \<open>scan_trace\<close> follows \<open>scan\<close> step by step, and lemma \<open>scan_probes\<close>
  shows that it agrees with the log the probed bodies write.
\<close>

record 'w seen =
  seen_task :: "'w BaseTask"
  seen_done :: TaskID
  seen_result :: "TaskStatus option"

definition visit_seen :: "'w BaseTask \<Rightarrow> TaskID \<Rightarrow> 'w \<Rightarrow> 'w seen" where
  "visit_seen task done w =
     \<lparr>seen_task = task, seen_done = done,
      seen_result = (if CheckDependencies done (GetDependency task)
                     then Some (fst (func task w)) else None)\<rparr>"

fun scan_trace :: "'w BaseTask list \<Rightarrow> TaskID \<Rightarrow> 'w \<Rightarrow> 'w seen list" where
  "scan_trace [] done w = []"
| "scan_trace (task # rest) done w =
     visit_seen task done w
     # (case visit task done w of (task', done', w') \<Rightarrow> scan_trace rest done' w')"

definition DoAvailable_trace :: "'w TaskList \<Rightarrow> 'w \<Rightarrow> 'w seen list" where
  "DoAvailable_trace lst w = scan_trace (task_list lst) (tasks_completed lst) w"

text \<open>The identities of the tasks whose body a scan called, in call order.\<close>

definition invoked :: "'w seen list \<Rightarrow> TaskID list" where
  "invoked tr = map (\<lambda>e. myid (seen_task e)) (filter (\<lambda>e. seen_result e \<noteq> None) tr)"

text \<open>The completed-set after the entries of a trace: the identities of the
  tasks whose body returned complete, marked in order with \<^verbatim>\<open>SetFinished\<close>.\<close>

fun marked :: "TaskID \<Rightarrow> 'w seen list \<Rightarrow> TaskID" where
  "marked d [] = d"
| "marked d (e # es) =
     marked (if seen_result e = Some TaskStatus_complete
             then SetFinished d (myid (seen_task e)) else d) es"

text \<open>What a trace shows of the order of execution: for each loop iteration the
  task and the status of its body, if called.\<close>

definition order_of :: "'w seen list \<Rightarrow> ('w BaseTask \<times> TaskStatus option) list" where
  "order_of tr = map (\<lambda>e. (seen_task e, seen_result e)) tr"

text \<open>The driving loop: \<open>n\<close> calls of \<^verbatim>\<open>DoAvailable\<close> in a row. The result is the
  status and the trace of each call, and the state after the last.\<close>

fun poll ::
  "nat \<Rightarrow> 'w TaskList \<Rightarrow> 'w \<Rightarrow> (TaskListStatus \<times> 'w seen list) list \<times> 'w TaskList \<times> 'w" where
  "poll 0 lst w = ([], lst, w)"
| "poll (Suc n) lst w =
     (case DoAvailable lst w of
        (st, lst', w') \<Rightarrow>
          (case poll n lst' w' of
             (hist, lst'', w'') \<Rightarrow> ((st, DoAvailable_trace lst w) # hist, lst'', w'')))"

definition poll_runs :: "nat \<Rightarrow> 'w TaskList \<Rightarrow> 'w \<Rightarrow> run_log" where
  "poll_runs k lst w = snd (snd (snd (poll k (probed lst) (w, []))))"

text \<open>The entries the probed bodies write for a trace, the first entry of the
  trace having the tag \<open>i\<close>.\<close>

fun trace_runs :: "nat \<Rightarrow> 'w seen list \<Rightarrow> run_log" where
  "trace_runs i [] = []"
| "trace_runs i (e # es) =
     (case seen_result e of None \<Rightarrow> [] | Some st \<Rightarrow> [(i, st)]) @ trace_runs (Suc i) es"

text \<open>A sequence of \<^verbatim>\<open>AddTask\<close> calls. The arguments of a call may use the
  identities the earlier calls returned, as a driver does when it builds a
  chain.\<close>

type_synonym 'w call = "TaskID list \<Rightarrow> ('w \<Rightarrow> TaskStatus \<times> 'w) \<times> TaskID"

fun AddTasks :: "'w TaskList \<Rightarrow> TaskID list \<Rightarrow> 'w call list \<Rightarrow> TaskID list \<times> 'w TaskList" where
  "AddTasks lst ids [] = (ids, lst)"
| "AddTasks lst ids (c # cs) =
     (case c ids of
        (f, d) \<Rightarrow> (case AddTask lst f d of (i, lst') \<Rightarrow> AddTasks lst' (ids @ [i]) cs))"

section \<open>Predicates of the statements\<close>

text \<open>No pending task carries the completion flag: true of a new list, and kept
  by \<^verbatim>\<open>Reset\<close>, \<^verbatim>\<open>AddTask\<close> and every call of \<^verbatim>\<open>DoAvailable\<close> that returns (lemmas
  below).\<close>

definition unflagged :: "'w TaskList \<Rightarrow> bool" where
  "unflagged lst = list_all (\<lambda>t. \<not> complete t) (task_list lst)"

text \<open>
  \<open>minted k lst\<close>: the list \<open>lst\<close> is obtained from a newly constructed list by
  calls of \<^verbatim>\<open>Reset\<close>, \<^verbatim>\<open>AddTask\<close> and \<^verbatim>\<open>DoAvailable\<close> (calls that return and calls
  that a body leaves by a throw) in any order, \<open>k\<close> of them calls of \<^verbatim>\<open>AddTask\<close>
  since the construction or the last \<^verbatim>\<open>Reset\<close>.
\<close>

inductive minted :: "nat \<Rightarrow> 'w TaskList \<Rightarrow> bool" where
  minted_new: "minted 0 TaskList_new"
| minted_Reset: "minted k lst \<Longrightarrow> minted 0 (Reset lst)"
| minted_AddTask: "minted k lst \<Longrightarrow> minted (Suc k) (snd (AddTask lst f d))"
| minted_DoAvailable: "minted k lst \<Longrightarrow> minted k (fst (snd (DoAvailable lst w)))"
| minted_throws:
    "minted k lst \<Longrightarrow> DoAvailable_throws lst w i = Some (lst', w') \<Longrightarrow> minted k lst'"

text \<open>\<open>bit_at bs n\<close>: bit \<open>n\<close>, counted from 0 across the blocks, is set in \<open>bs\<close>;
  \<open>bits t\<close> is the set of the bits of an identifier. The program has no such
  function: the statements and proofs read identifiers through it.\<close>

fun bit_at :: "bitblock list \<Rightarrow> nat \<Rightarrow> bool" where
  "bit_at [] n = False"
| "bit_at (b # bs) n = (if n < 16 then bit b n else bit_at bs (n - 16))"

definition bits :: "TaskID \<Rightarrow> nat set" where
  "bits t = {n. bit_at (bitblocks t) n}"

text \<open>Two lists that agree on everything except, possibly, the number of
  zero blocks of their completed-sets.\<close>

definition alike :: "'w TaskList \<Rightarrow> 'w TaskList \<Rightarrow> bool" where
  "alike a b \<longleftrightarrow>
     task_list a = task_list b \<and> tasks_added a = tasks_added b
     \<and> dependencies a = dependencies b
     \<and> bits (tasks_completed a) = bits (tasks_completed b)"



section \<open>Concrete task lists\<close>

text \<open>Small lists built with \<^verbatim>\<open>AddTask\<close> on a new list, used to run the model:
  a task whose dependency was never added; a list with one task that completes,
  one that does not and one that waits for the second; a list with a barrier
  on a list that is not drained; and the chain \<open>T1\<close>, \<open>T2\<close> after \<open>T1\<close>, \<open>T3\<close>
  after \<open>T1 | T2\<close>, whose bodies all return complete.\<close>

definition orphan_list :: "unit TaskList" where
  "orphan_list = snd (AddTask TaskList_new (\<lambda>w. (TaskStatus_complete, w)) (Set_id 2))"

definition mixed_list :: "unit TaskList" where
  "mixed_list =
     (case AddTask TaskList_new (\<lambda>w. (TaskStatus_complete, w)) (Set_id 0) of
        (t1, l1) \<Rightarrow>
          (case AddTask l1 (\<lambda>w. (TaskStatus_incomplete, w)) (Set_id 0) of
             (t2, l2) \<Rightarrow> snd (AddTask l2 (\<lambda>w. (TaskStatus_complete, w)) t2)))"

definition barrier_list :: "unit TaskList" where
  "barrier_list = (orphan_list :: unit TaskList)\<lparr>dependencies := [7]\<rparr>"

definition barrier_store :: "unit store" where
  "barrier_store = (\<lambda>a. if a = 7 then Some mixed_list else None)"

definition scenario_A :: "('w \<Rightarrow> 'w) \<Rightarrow> ('w \<Rightarrow> 'w) \<Rightarrow> ('w \<Rightarrow> 'w) \<Rightarrow> 'w TaskList" where
  "scenario_A g1 g2 g3 =
     (case AddTask TaskList_new (\<lambda>w. (TaskStatus_complete, g1 w)) (Set_id 0) of
        (t1, l1) \<Rightarrow>
          (case AddTask l1 (\<lambda>w. (TaskStatus_complete, g2 w)) t1 of
             (t2, l2) \<Rightarrow>
               snd (AddTask l2 (\<lambda>w. (TaskStatus_complete, g3 w)) (union_id t1 t2))))"

text \<open>The chain of Scenario A as a sequence of \<^verbatim>\<open>AddTask\<close> calls that use the
  identities returned before.\<close>

definition chain_calls :: "unit call list" where
  "chain_calls =
     [\<lambda>ids. (\<lambda>w. (TaskStatus_complete, w), Set_id 0),
      \<lambda>ids. (\<lambda>w. (TaskStatus_complete, w), ids ! 0),
      \<lambda>ids. (\<lambda>w. (TaskStatus_complete, w), union_id (ids ! 0) (ids ! 1))]"

text \<open>A used list to reset: three tasks added, a completed-set of two blocks.\<close>

definition reset_me :: "unit TaskList" where
  "reset_me = (mixed_list :: unit TaskList)\<lparr>tasks_completed := Set_id 17\<rparr>"





text \<open>Scenario A with bodies that leave the outside state alone.\<close>

definition plain_A :: "unit TaskList" where
  "plain_A = scenario_A id id id"

text \<open>
  A list on which a call of \<^verbatim>\<open>DoAvailable\<close> is left by a throw: the first task
  completes on its first run and returns incomplete afterwards, the body of the
  second throws in the first call and returns incomplete later. \<open>aborted_list\<close>
  is the list after the first call.
\<close>

definition once_body :: "nat \<Rightarrow> TaskStatus \<times> nat" where
  "once_body w = (if w = 0 then TaskStatus_complete else TaskStatus_incomplete, Suc w)"

definition pair_list :: "nat TaskList" where
  "pair_list =
     snd (AddTask (snd (AddTask TaskList_new once_body (Set_id 0)))
            (\<lambda>w. (TaskStatus_incomplete, w)) (Set_id 0))"

definition aborted_list :: "nat TaskList" where
  "aborted_list =
     \<lparr>task_list =
        [\<lparr>myid = Set_id 1, dep = Set_id 0, complete = True, func = once_body\<rparr>,
         \<lparr>myid = Set_id 2, dep = Set_id 0, complete = False,
          func = (\<lambda>w. (TaskStatus_incomplete, w))\<rparr>],
      tasks_added = 2, dependencies = [], tasks_completed = TaskID [1]\<rparr>"

text \<open>A list that lives long without \<^verbatim>\<open>Reset\<close>: \<open>k\<close> times a task is added and the
  list is drained by one call of \<^verbatim>\<open>DoAvailable\<close>.\<close>

fun drained :: "nat \<Rightarrow> unit TaskList" where
  "drained 0 = TaskList_new"
| "drained (Suc k) =
     fst (snd (DoAvailable
       (snd (AddTask (drained k) (\<lambda>w. (TaskStatus_complete, w)) (Set_id 0))) ()))"




section \<open>Facts about identifiers\<close>

lemma block_zero_iff: "(d :: bitblock) = 0 \<longleftrightarrow> (\<forall>n<16. \<not> bit d n)"
proof
  assume "d = 0" then show "\<forall>n<16. \<not> bit d n" by simp
next
  assume h: "\<forall>n<16. \<not> bit d n"
  show "d = 0"
  proof (rule bit_word_eqI)
    fix n assume "n < LENGTH(16)"
    then show "bit d n = bit (0 :: bitblock) n" using h by simp
  qed
qed

lemma block_sub_iff: "((c :: bitblock) AND d) = d \<longleftrightarrow> (\<forall>n<16. bit d n \<longrightarrow> bit c n)"
proof
  assume e: "(c AND d) = d"
  show "\<forall>n<16. bit d n \<longrightarrow> bit c n"
  proof (intro allI impI)
    fix n assume "n < 16" and "bit d n"
    then have "bit (c AND d) n" using e by simp
    then show "bit c n" by (simp add: bit_and_iff)
  qed
next
  assume h: "\<forall>n<16. bit d n \<longrightarrow> bit c n"
  show "(c AND d) = d"
  proof (rule bit_word_eqI)
    fix n assume "n < LENGTH(16)"
    then show "bit (c AND d) n = bit d n" using h by (auto simp: bit_and_iff)
  qed
qed

lemma block_eq_iff: "(x :: bitblock) = y \<longleftrightarrow> (\<forall>n<16. bit x n = bit y n)"
proof
  assume "x = y" then show "\<forall>n<16. bit x n = bit y n" by simp
next
  assume h: "\<forall>n<16. bit x n = bit y n"
  show "x = y"
    by (rule bit_word_eqI) (use h in simp)
qed

lemma bit_at_shift: "bit_at (b # bs) (n + 16) = bit_at bs n"
  by simp

lemma all_split16:
  "(\<forall>n::nat. P n) \<longleftrightarrow> (\<forall>n<16. P n) \<and> (\<forall>n. P (n + 16))"
proof
  assume "\<forall>n. P n" then show "(\<forall>n<16. P n) \<and> (\<forall>n. P (n + 16))" by simp
next
  assume h: "(\<forall>n<16. P n) \<and> (\<forall>n. P (n + 16))"
  show "\<forall>n. P n"
  proof
    fix n :: nat
    show "P n"
    proof (cases "n < 16")
      case True then show ?thesis using h by simp
    next
      case False
      then have "n = (n - 16) + 16" by simp
      then show ?thesis using h by metis
    qed
  qed
qed

lemma check_blocks_Nil_iff: "check_blocks [] ds \<longleftrightarrow> (\<forall>n. \<not> bit_at ds n)"
proof (induction ds)
  case Nil
  show ?case by simp
next
  case (Cons d ds)
  have "(\<forall>n. \<not> bit_at (d # ds) n)
        \<longleftrightarrow> (\<forall>n<16. \<not> bit_at (d # ds) n) \<and> (\<forall>n. \<not> bit_at (d # ds) (n + 16))"
    by (rule all_split16)
  also have "\<dots> \<longleftrightarrow> (\<forall>n<16. \<not> bit d n) \<and> (\<forall>n. \<not> bit_at ds n)"
    by simp
  finally show ?case using Cons.IH by (simp add: block_zero_iff)
qed

lemma check_blocks_iff:
  "check_blocks cs ds \<longleftrightarrow> (\<forall>n. bit_at ds n \<longrightarrow> bit_at cs n)"
proof (induction cs ds rule: check_blocks.induct)
  case (1 cs)
  show ?case by simp
next
  case (2 d ds)
  show ?case using check_blocks_Nil_iff [of "d # ds"] by simp
next
  case (3 c cs d ds)
  have "(\<forall>n. bit_at (d # ds) n \<longrightarrow> bit_at (c # cs) n)
        \<longleftrightarrow> (\<forall>n<16. bit_at (d # ds) n \<longrightarrow> bit_at (c # cs) n)
          \<and> (\<forall>n. bit_at (d # ds) (n + 16) \<longrightarrow> bit_at (c # cs) (n + 16))"
    by (rule all_split16)
  also have "\<dots> \<longleftrightarrow> (\<forall>n<16. bit d n \<longrightarrow> bit c n) \<and> (\<forall>n. bit_at ds n \<longrightarrow> bit_at cs n)"
    by simp
  finally show ?case using "3.IH" by (simp add: block_sub_iff)
qed

lemma bit_at_or_blocks: "bit_at (or_blocks xs ys) n \<longleftrightarrow> bit_at xs n \<or> bit_at ys n"
proof (induction xs ys arbitrary: n rule: or_blocks.induct)
  case (1 ys)
  show ?case by simp
next
  case (2 x xs)
  show ?case by simp
next
  case (3 x xs y ys)
  then show ?case by (simp add: bit_or_iff)
qed

lemma CheckDependencies_iff: "CheckDependencies c d \<longleftrightarrow> bits d \<subseteq> bits c"
  by (auto simp: CheckDependencies_def bits_def check_blocks_iff)

lemma bits_union_id: "bits (union_id a b) = bits a \<union> bits b"
  by (auto simp: union_id_def bits_def bit_at_or_blocks)

lemma bits_SetFinished: "bits (SetFinished c x) = bits c \<union> bits x"
  by (auto simp: SetFinished_def bits_def bit_at_or_blocks)

section \<open>The union of two identifiers\<close>

lemma CheckDependencies_union_id:
  "CheckDependencies c (union_id a b) \<longleftrightarrow> CheckDependencies c a \<and> CheckDependencies c b"
  by (simp add: CheckDependencies_iff bits_union_id)

text \<open>
  Claim C1, as stated: for all identifiers \<open>a\<close>, \<open>b\<close> and every completed-set
  \<open>c\<close>, the union \<open>a | b\<close> is satisfied by \<open>c\<close> if and only if \<open>a\<close> is satisfied
  by \<open>c\<close> or \<open>b\<close> is. This fails: with \<open>a\<close> the identity of index 1, \<open>b\<close> the
  identity of index 2 and \<open>c = a\<close>, the identifier \<open>a\<close> is satisfied but the
  union, which has bit 1 as well, is not.
\<close>

theorem C1_union_or_counterexample:
  "\<not> (CheckDependencies (Set_id 1) (union_id (Set_id 1) (Set_id 2))
      \<longleftrightarrow> CheckDependencies (Set_id 1) (Set_id 1)
          \<or> CheckDependencies (Set_id 1) (Set_id 2))"
  by (simp add: CheckDependencies_def union_id_def Set_id_def BITBLOCK_def)

text \<open>
  Claim C1, amended: for all identifiers \<open>a\<close>, \<open>b\<close> and every completed-set \<open>c\<close>,
  the union \<open>a | b\<close> is satisfied by \<open>c\<close> (\<open>CheckDependencies\<close> returns true) if
  and only if \<open>a\<close> is satisfied by \<open>c\<close> and \<open>b\<close> is satisfied by \<open>c\<close>.
\<close>

theorem C1_union_and:
  "CheckDependencies c (union_id a b)
   \<longleftrightarrow> CheckDependencies c a \<and> CheckDependencies c b"
  by (rule CheckDependencies_union_id)

section \<open>Facts about one scan\<close>

lemma erase_complete_filter: "erase_complete ts = filter (\<lambda>t. \<not> complete t) ts"
  by (induction ts) (simp_all add: Task_IsComplete_def)

lemma visit_not_ready:
  "\<not> CheckDependencies done (dep task) \<Longrightarrow> visit task done w = (task, done, w)"
  by (simp add: visit_def GetDependency_def)

lemma visit_complete:
  "CheckDependencies done (dep task) \<Longrightarrow> fst (func task w) = TaskStatus_complete \<Longrightarrow>
   visit task done w = (task\<lparr>complete := True\<rparr>, SetFinished done (myid task), snd (func task w))"
  by (simp add: visit_def GetDependency_def GetID_def SetComplete_def case_prod_beta)

lemma visit_incomplete:
  "CheckDependencies done (dep task) \<Longrightarrow> fst (func task w) \<noteq> TaskStatus_complete \<Longrightarrow>
   visit task done w = (task, done, snd (func task w))"
  by (simp add: visit_def GetDependency_def case_prod_beta)

lemma visit_cases:
  obtains (not_ready) "\<not> CheckDependencies done (dep task)"
      "visit task done w = (task, done, w)"
  | (complete) "CheckDependencies done (dep task)" "fst (func task w) = TaskStatus_complete"
      "visit task done w = (task\<lparr>complete := True\<rparr>, SetFinished done (myid task), snd (func task w))"
  | (incomplete) "CheckDependencies done (dep task)" "fst (func task w) = TaskStatus_incomplete"
      "visit task done w = (task, done, snd (func task w))"
proof (cases "CheckDependencies done (dep task)")
  case False
  show ?thesis by (rule not_ready [OF False visit_not_ready [OF False]])
next
  case True
  show ?thesis
  proof (cases "fst (func task w)")
    case TaskStatus_complete
    show ?thesis
      by (rule complete [OF True TaskStatus_complete visit_complete [OF True TaskStatus_complete]])
  next
    case TaskStatus_incomplete
    then have "fst (func task w) \<noteq> TaskStatus_complete" by simp
    from visit_incomplete [OF True this] show ?thesis
      by (rule incomplete [OF True TaskStatus_incomplete])
  qed
qed

lemma visit_seen_result:
  "seen_result (visit_seen task done w) =
     (if CheckDependencies done (dep task) then Some (fst (func task w)) else None)"
  by (simp add: visit_seen_def GetDependency_def)


lemma scan_trace_append:
  "scan_trace (xs @ ys) d w =
     scan_trace xs d w @ (case scan xs d w of (xs', d', w') \<Rightarrow> scan_trace ys d' w')"
  by (induction xs arbitrary: d w) (simp_all add: case_prod_beta)

lemma scan_trace_tasks: "map seen_task (scan_trace ts d w) = ts"
  by (induction ts arbitrary: d w) (simp_all add: visit_seen_def case_prod_beta)




section \<open>Facts about one call of DoAvailable\<close>

lemma DoAvailable_tasks:
  "task_list (fst (snd (DoAvailable lst w)))
   = erase_complete (fst (scan (task_list lst) (tasks_completed lst) w))"
  by (simp add: DoAvailable_def ClearComplete_def Let_def case_prod_beta)

lemma DoAvailable_done:
  "tasks_completed (fst (snd (DoAvailable lst w)))
   = fst (snd (scan (task_list lst) (tasks_completed lst) w))"
  by (simp add: DoAvailable_def ClearComplete_def Let_def case_prod_beta)

lemma DoAvailable_world:
  "snd (snd (DoAvailable lst w)) = snd (snd (scan (task_list lst) (tasks_completed lst) w))"
  by (simp add: DoAvailable_def ClearComplete_def Let_def case_prod_beta)

lemma DoAvailable_frame:
  "tasks_added (fst (snd (DoAvailable lst w))) = tasks_added lst"
  "dependencies (fst (snd (DoAvailable lst w))) = dependencies lst"
  by (simp_all add: DoAvailable_def ClearComplete_def Let_def case_prod_beta)

lemma DoAvailable_status:
  "fst (DoAvailable lst w)
   = (if task_list (fst (snd (DoAvailable lst w))) = [] then TaskListStatus_complete
      else TaskListStatus_running)"
  by (simp add: DoAvailable_def ClearComplete_def IsComplete_def Let_def case_prod_beta)

lemma DoAvailable_Nil:
  assumes "task_list lst = []"
  shows "DoAvailable lst w = (TaskListStatus_complete, lst, w)"
  using assms by (simp add: DoAvailable_def ClearComplete_def IsComplete_def)

lemma unflagged_new: "unflagged TaskList_new"
  by (simp add: unflagged_def TaskList_new_def)

lemma unflagged_Reset: "unflagged (Reset lst)"
  by (simp add: unflagged_def Reset_def)

lemma unflagged_AddTask: "unflagged lst \<Longrightarrow> unflagged (snd (AddTask lst f d))"
  by (simp add: unflagged_def AddTask_def Let_def)

lemma unflagged_DoAvailable: "unflagged (fst (snd (DoAvailable lst w)))"
  by (simp add: unflagged_def DoAvailable_tasks erase_complete_filter list_all_iff)



lemma poll_Nil:
  assumes "task_list lst = []"
  shows "poll n lst w = (replicate n (TaskListStatus_complete, []), lst, w)"
  using assms
  by (induction n) (simp_all add: DoAvailable_Nil DoAvailable_trace_def)

lemma bits_clear: "bits (clear t) = {}"
proof -
  have "\<not> bit_at (map (\<lambda>_. 0) bs) n" for bs :: "bitblock list" and n
    by (induction bs arbitrary: n) simp_all
  then show ?thesis by (simp add: bits_def clear_def)
qed

section \<open>Running the concrete lists\<close>

lemmas eval_defs =
  AddTask_def int_wrap_def TaskList_new_def Set_id_def BITBLOCK_def DoAvailable_def DoAvailable_trace_def
  ClearComplete_def IsComplete_def Task_IsComplete_def visit_def visit_seen_def
  GetDependency_def GetID_def SetComplete_def CheckDependencies_def SetFinished_def
  union_id_def invoked_def unflagged_def Let_def





text \<open>
  Claim C4: on the list of three tasks added in order, \<open>T1\<close> without dependency,
  \<open>T2\<close> depending on the identity of \<open>T1\<close>, \<open>T3\<close> depending on the union of the
  identities of \<open>T1\<close> and \<open>T2\<close>, all bodies returning complete (with any effect
  \<open>g1\<close>, \<open>g2\<close>, \<open>g3\<close> on the outside state), one call of \<^verbatim>\<open>DoAvailable\<close> calls
  the three bodies in order, retires the three tasks and returns \<open>complete\<close>.
\<close>

theorem C4_scenario_A:
  "fst (DoAvailable (scenario_A g1 g2 g3) w) = TaskListStatus_complete
   \<and> task_list (fst (snd (DoAvailable (scenario_A g1 g2 g3) w))) = []
   \<and> snd (snd (DoAvailable (scenario_A g1 g2 g3) w)) = g3 (g2 (g1 w))
   \<and> map seen_result (DoAvailable_trace (scenario_A g1 g2 g3) w)
       = [Some TaskStatus_complete, Some TaskStatus_complete, Some TaskStatus_complete]
   \<and> invoked (DoAvailable_trace (scenario_A g1 g2 g3) w) = [Set_id 1, Set_id 2, Set_id 3]
   \<and> map (\<lambda>t. (myid t, dep t)) (task_list (scenario_A g1 g2 g3))
       = [(Set_id 1, Set_id 0), (Set_id 2, Set_id 1), (Set_id 3, union_id (Set_id 1) (Set_id 2))]"
  by (simp add: scenario_A_def eval_defs)

text \<open>
  Claim C7: once \<^verbatim>\<open>DoAvailable\<close> has returned \<open>complete\<close>, every later call
  returns \<open>complete\<close> again, calls no body and leaves the list and the outside
  state as they are.
\<close>

theorem C7_idempotent:
  assumes "fst (DoAvailable lst w) = TaskListStatus_complete"
  shows "poll n (fst (snd (DoAvailable lst w))) w'
         = (replicate n (TaskListStatus_complete, []), fst (snd (DoAvailable lst w)), w')"
proof -
  have "task_list (fst (snd (DoAvailable lst w))) = []"
    using assms DoAvailable_status [of lst w] by (simp split: if_splits)
  then show ?thesis by (rule poll_Nil)
qed

theorem C7_idempotent_witness:
  "fst (DoAvailable (scenario_A id id id) ()) = TaskListStatus_complete
   \<and> poll 2 (fst (snd (DoAvailable (scenario_A id id id) ()))) ()
       = ([(TaskListStatus_complete, []), (TaskListStatus_complete, [])],
          fst (snd (DoAvailable (scenario_A id id id) ())), ())"
proof -
  have c: "fst (DoAvailable (scenario_A id id id) ()) = TaskListStatus_complete"
    by (simp add: scenario_A_def eval_defs)
  have r: "replicate 2 x = [x, x]" for x :: "TaskListStatus \<times> unit seen list"
    by (simp add: numeral_2_eq_2)
  show ?thesis using c C7_idempotent [OF c, of 2 "()"] by (simp add: r)
qed

lemma IsReady_Reset: "IsReady h (Reset lst) = Some True"
  by (simp add: IsReady_def Reset_def)

text \<open>
  Claim C10: \<^verbatim>\<open>Reset\<close> empties the pending collection, the completed-set, the
  counter and also the registered barrier lists, so \<^verbatim>\<open>IsReady\<close> returns true
  right after it, whatever lists were registered and whatever state they are in.
\<close>

theorem C10_Reset_barriers:
  "task_list (Reset lst) = [] \<and> tasks_added (Reset lst) = 0
   \<and> bits (tasks_completed (Reset lst)) = {}
   \<and> dependencies (Reset lst) = []
   \<and> IsReady h (Reset lst) = Some True"
  by (simp add: IsReady_Reset) (simp add: Reset_def bits_clear)

theorem C10_Reset_barriers_witness:
  "IsReady barrier_store barrier_list = Some False
   \<and> dependencies (Reset barrier_list) = []
   \<and> IsReady barrier_store (Reset barrier_list) = Some True"
proof -
  have "IsReady barrier_store barrier_list = Some False"
    by (simp add: IsReady_def barrier_list_def barrier_store_def mixed_list_def eval_defs)
  then show ?thesis using C10_Reset_barriers [of barrier_list barrier_store] by simp
qed

section \<open>The completed-set during a scan\<close>

lemma visit_done:
  "fst (snd (visit t d w))
   = (if seen_result (visit_seen t d w) = Some TaskStatus_complete
      then SetFinished d (myid t) else d)"
  by (cases rule: visit_cases [of d t w]) (simp_all add: visit_seen_result)

lemma visit_seen_sel:
  "seen_task (visit_seen t d w) = t" "seen_done (visit_seen t d w) = d"
  by (simp_all add: visit_seen_def)

lemma scan_trace_done:
  "i < length ts \<Longrightarrow>
   seen_done (scan_trace ts d w ! i) = marked d (take i (scan_trace ts d w))"
proof (induction ts arbitrary: d w i)
  case Nil
  then show ?case by simp
next
  case (Cons t ts)
  show ?case
  proof (cases i)
    case 0
    then show ?thesis by (simp add: visit_seen_sel)
  next
    case (Suc j)
    then have j: "j < length ts" using Cons.prems by simp
    obtain t' d' w' where v: "visit t d w = (t', d', w')" by (cases "visit t d w")
    have d': "d' = (if seen_result (visit_seen t d w) = Some TaskStatus_complete
                    then SetFinished d (myid t) else d)"
      using visit_done [of t d w] v by simp
    show ?thesis using Suc v Cons.IH [OF j, of d' w'] d'
      by (simp add: visit_seen_sel)
  qed
qed

lemma scan_done_marked:
  "fst (snd (scan ts d w)) = marked d (scan_trace ts d w)"
proof (induction ts arbitrary: d w)
  case Nil
  show ?case by simp
next
  case (Cons t ts)
  obtain t' d' w' where v: "visit t d w = (t', d', w')" by (cases "visit t d w")
  have d': "d' = (if seen_result (visit_seen t d w) = Some TaskStatus_complete
                  then SetFinished d (myid t) else d)"
    using visit_done [of t d w] v by simp
  show ?case using v Cons.IH [of d' w'] d'
    by (simp add: visit_seen_sel case_prod_beta)
qed

lemma scan_trace_result:
  "i < length ts \<Longrightarrow>
   seen_result (scan_trace ts d w ! i) \<noteq> None
   \<longleftrightarrow> CheckDependencies (seen_done (scan_trace ts d w ! i)) (dep (ts ! i))"
proof (induction ts arbitrary: d w i)
  case Nil
  then show ?case by simp
next
  case (Cons t ts)
  show ?case
  proof (cases i)
    case 0
    then show ?thesis by (simp add: visit_seen_sel visit_seen_result)
  next
    case (Suc j)
    then have j: "j < length ts" using Cons.prems by simp
    show ?thesis using Suc Cons.IH [OF j] by (simp add: case_prod_beta)
  qed
qed

lemma length_scan_trace: "length (scan_trace ts d w) = length ts"
  by (induction ts arbitrary: d w) (simp_all add: case_prod_beta)

lemma bits_marked:
  "bits (marked d tr)
   = bits d \<union> (\<Union>e \<in> {e \<in> set tr. seen_result e = Some TaskStatus_complete}.
                 bits (myid (seen_task e)))"
  by (induction tr arbitrary: d) (auto simp: bits_SetFinished)

section \<open>Minting identities\<close>

lemma one_bit: "bit (push_bit r (1::bitblock)) n \<longleftrightarrow> n < 16 \<and> n = r"
  by (simp add: bit_exp_iff)

lemma bit_at_one_bit:
  "r < 16 \<Longrightarrow> bit_at (replicate m 0 @ [push_bit r 1]) n \<longleftrightarrow> n = 16 * m + r"
proof (induction m arbitrary: n)
  case 0
  have "bit_at [push_bit r 1] n \<longleftrightarrow> n < 16 \<and> n = r"
    unfolding bit_at.simps one_bit by simp
  then show ?case using 0 by auto
next
  case (Suc m)
  have "bit_at (replicate (Suc m) 0 @ [push_bit r 1]) n
        \<longleftrightarrow> 16 \<le> n \<and> bit_at (replicate m 0 @ [push_bit r 1]) (n - 16)"
    unfolding replicate_Suc append_Cons bit_at.simps by simp
  also have "\<dots> \<longleftrightarrow> 16 \<le> n \<and> n - 16 = 16 * m + r"
    unfolding Suc.IH [OF Suc.prems] ..
  also have "\<dots> \<longleftrightarrow> n = 16 * Suc m + r"
    by auto
  finally show ?case .
qed

lemma bits_Set_id:
  assumes "1 \<le> i"
  shows "bits (Set_id i) = {nat (i - 1)}"
proof -
  have r: "nat ((i - 1) mod 16) < 16" using assms by simp
  define q where "q = (i - 1) div 16"
  define r' where "r' = (i - 1) mod 16"
  have q: "0 \<le> q" using assms by (simp add: q_def pos_imp_zdiv_nonneg_iff)
  have r': "0 \<le> r'" by (simp add: r'_def)
  have "i - 1 = 16 * q + r'" by (simp add: q_def r'_def)
  then have "nat (i - 1) = nat (16 * q + r')" by (rule arg_cong)
  also have "\<dots> = nat (16 * q) + nat r'" using q r' by (intro nat_add_distrib) simp_all
  also have "nat (16 * q) = 16 * nat q" using q by (simp only: nat_mult_distrib) simp
  finally have e: "16 * nat ((i - 1) div 16) + nat ((i - 1) mod 16) = nat (i - 1)"
    by (simp only: q_def r'_def)
  have "bits (Set_id i)
        = {n. bit_at (replicate (nat ((i - 1) div 16)) 0 @ [push_bit (nat ((i - 1) mod 16)) 1]) n}"
    using assms by (simp add: bits_def Set_id_def BITBLOCK_def)
  also have "\<dots> = {n. n = 16 * nat ((i - 1) div 16) + nat ((i - 1) mod 16)}"
    unfolding bit_at_one_bit [OF r] ..
  finally show ?thesis using e by simp
qed

lemma bits_Set_id_0: "bits (Set_id 0) = {}"
  by (simp add: bits_def Set_id_def)

lemma eq_blocks_Nil_iff: "eq_blocks [] ys \<longleftrightarrow> (\<forall>n. \<not> bit_at ys n)"
proof -
  have "eq_blocks [] ys = check_blocks [] ys"
    by (induction ys) simp_all
  then show ?thesis by (simp add: check_blocks_Nil_iff)
qed

lemma eq_blocks_Nil2_iff: "eq_blocks xs [] \<longleftrightarrow> (\<forall>n. \<not> bit_at xs n)"
proof (induction xs)
  case Nil
  show ?case by simp
next
  case (Cons x xs)
  have "(\<forall>n. \<not> bit_at (x # xs) n)
        \<longleftrightarrow> (\<forall>n<16. \<not> bit_at (x # xs) n) \<and> (\<forall>n. \<not> bit_at (x # xs) (n + 16))"
    by (rule all_split16)
  also have "\<dots> \<longleftrightarrow> (\<forall>n<16. \<not> bit x n) \<and> (\<forall>n. \<not> bit_at xs n)"
    by simp
  finally show ?case using Cons.IH by (simp add: block_zero_iff)
qed

lemma eq_blocks_iff: "eq_blocks xs ys \<longleftrightarrow> (\<forall>n. bit_at xs n = bit_at ys n)"
proof (induction xs ys rule: eq_blocks.induct)
  case 1
  show ?case by simp
next
  case (2 y ys)
  show ?case using eq_blocks_Nil_iff [of "y # ys"] by simp
next
  case (3 x xs)
  show ?case using eq_blocks_Nil2_iff [of "x # xs"] by simp
next
  case (4 x xs y ys)
  have "(\<forall>n. bit_at (x # xs) n = bit_at (y # ys) n)
        \<longleftrightarrow> (\<forall>n<16. bit_at (x # xs) n = bit_at (y # ys) n)
          \<and> (\<forall>n. bit_at (x # xs) (n + 16) = bit_at (y # ys) (n + 16))"
    by (rule all_split16)
  also have "\<dots> \<longleftrightarrow> (\<forall>n<16. bit x n = bit y n) \<and> (\<forall>n. bit_at xs n = bit_at ys n)"
    by simp
  finally show ?case using "4.IH" block_eq_iff [of x y] by simp
qed

lemma equal_id_iff: "equal_id a b \<longleftrightarrow> bits a = bits b"
  by (auto simp: equal_id_def bits_def eq_blocks_iff)

lemma AddTask_fst: "fst (AddTask s f d) = Set_id (int_wrap (tasks_added s + 1))"
  by (simp add: AddTask_def Let_def)

lemma AddTask_snd:
  "snd (AddTask s f d)
   = s\<lparr>task_list := task_list s
          @ [\<lparr>myid = Set_id (int_wrap (tasks_added s + 1)), dep = d, complete = False,
               func = f\<rparr>],
       tasks_added := int_wrap (tasks_added s + 1)\<rparr>"
  by (simp add: AddTask_def Let_def)

lemma AddTasks_step:
  "AddTasks s ids (c # cs)
   = AddTasks (snd (AddTask s (fst (c ids)) (snd (c ids))))
       (ids @ [Set_id (int_wrap (tasks_added s + 1))]) cs"
  by (simp add: case_prod_beta AddTask_fst)


section \<open>Lists that differ in the blocks of the completed-set only\<close>

lemma CheckDependencies_cong:
  "bits c1 = bits c2 \<Longrightarrow> CheckDependencies c1 d = CheckDependencies c2 d"
  by (simp add: CheckDependencies_iff)

lemma visit_cong:
  assumes "bits d1 = bits d2"
  shows "fst (visit t d1 w) = fst (visit t d2 w)"
    and "snd (snd (visit t d1 w)) = snd (snd (visit t d2 w))"
    and "bits (fst (snd (visit t d1 w))) = bits (fst (snd (visit t d2 w)))"
    and "seen_result (visit_seen t d1 w) = seen_result (visit_seen t d2 w)"
  using assms CheckDependencies_cong [OF assms, of "dep t"]
  by (simp_all add: visit_def visit_seen_def GetDependency_def case_prod_beta
      bits_SetFinished)

lemma scan_cong:
  assumes "bits d1 = bits d2"
  shows "fst (scan ts d1 w) = fst (scan ts d2 w)
    \<and> snd (snd (scan ts d1 w)) = snd (snd (scan ts d2 w))
    \<and> bits (fst (snd (scan ts d1 w))) = bits (fst (snd (scan ts d2 w)))
    \<and> order_of (scan_trace ts d1 w) = order_of (scan_trace ts d2 w)"
  using assms
proof (induction ts arbitrary: d1 d2 w)
  case Nil
  then show ?case by (simp add: order_of_def)
next
  case (Cons t ts)
  obtain t1 e1 w1 where v1: "visit t d1 w = (t1, e1, w1)" by (cases "visit t d1 w")
  obtain t2 e2 w2 where v2: "visit t d2 w = (t2, e2, w2)" by (cases "visit t d2 w")
  have t: "t1 = t2" and w: "w1 = w2" and e: "bits e1 = bits e2"
    using visit_cong(1-3) [OF Cons.prems, of t w] v1 v2 by simp_all
  have r: "seen_result (visit_seen t d1 w) = seen_result (visit_seen t d2 w)"
    by (rule visit_cong(4) [OF Cons.prems])
  show ?case
    using Cons.IH [OF e, of w2] v1 v2 t w r
    by (simp add: case_prod_beta order_of_def visit_seen_sel)
qed

lemma DoAvailable_cong:
  assumes "alike a b"
  shows "fst (DoAvailable a w) = fst (DoAvailable b w)"
    and "alike (fst (snd (DoAvailable a w))) (fst (snd (DoAvailable b w)))"
    and "snd (snd (DoAvailable a w)) = snd (snd (DoAvailable b w))"
    and "order_of (DoAvailable_trace a w) = order_of (DoAvailable_trace b w)"
proof -
  have ts: "task_list a = task_list b" and d: "bits (tasks_completed a) = bits (tasks_completed b)"
    using assms by (simp_all add: alike_def)
  note s = scan_cong [OF d, of "task_list b" w]
  show 2: "alike (fst (snd (DoAvailable a w))) (fst (snd (DoAvailable b w)))"
    using assms s
    by (simp add: alike_def DoAvailable_tasks DoAvailable_done DoAvailable_frame)
  then show "fst (DoAvailable a w) = fst (DoAvailable b w)"
    by (simp add: DoAvailable_status alike_def)
  show "snd (snd (DoAvailable a w)) = snd (snd (DoAvailable b w))"
    using s ts by (simp add: DoAvailable_world)
  show "order_of (DoAvailable_trace a w) = order_of (DoAvailable_trace b w)"
    using s ts by (simp add: DoAvailable_trace_def)
qed

lemma poll_cong:
  assumes "alike a b"
  shows "map (\<lambda>(st, tr). (st, order_of tr)) (fst (poll n a w))
         = map (\<lambda>(st, tr). (st, order_of tr)) (fst (poll n b w))
    \<and> alike (fst (snd (poll n a w))) (fst (snd (poll n b w)))
    \<and> snd (snd (poll n a w)) = snd (snd (poll n b w))"
  using assms
proof (induction n arbitrary: a b w)
  case 0
  then show ?case by simp
next
  case (Suc n)
  note c = DoAvailable_cong [OF Suc.prems, of w]
  show ?case
    using Suc.IH [OF c(2), of "snd (snd (DoAvailable b w))"] c(1,3,4)
    by (simp add: case_prod_beta)
qed

lemma AddTasks_cong:
  assumes "alike a b"
  shows "fst (AddTasks a ids cs) = fst (AddTasks b ids cs)
    \<and> alike (snd (AddTasks a ids cs)) (snd (AddTasks b ids cs))"
  using assms
proof (induction cs arbitrary: a b ids)
  case Nil
  then show ?case by simp
next
  case (Cons c cs)
  have n: "tasks_added a = tasks_added b" using Cons.prems by (simp add: alike_def)
  have "alike (snd (AddTask a (fst (c ids)) (snd (c ids))))
              (snd (AddTask b (fst (c ids)) (snd (c ids))))"
    using Cons.prems by (simp add: alike_def AddTask_snd)
  from Cons.IH [OF this] show ?case
    unfolding AddTasks_step n .
qed

lemma alike_Reset_new: "alike (Reset l) TaskList_new"
  by (simp add: alike_def Reset_def TaskList_new_def bits_clear bits_Set_id_0)

text \<open>
  Claim C9: \<^verbatim>\<open>Reset\<close> of any list followed by a sequence of \<^verbatim>\<open>AddTask\<close> calls
  behaves as the same sequence on a newly constructed list: the calls return
  the same identities and build the same pending tasks, and under any number
  \<open>n\<close> of \<^verbatim>\<open>DoAvailable\<close> calls from the same outside state the two lists
  return the same statuses, reach and call the same tasks in the same order
  with the same results, end with the same pending tasks and outside state,
  and their completed-sets are equal (\<^verbatim>\<open>operator==\<close>).
\<close>

theorem C9_Reset_replay:
  "fst (AddTasks (Reset l) [] cs) = fst (AddTasks TaskList_new [] cs)
   \<and> task_list (snd (AddTasks (Reset l) [] cs))
       = task_list (snd (AddTasks TaskList_new [] cs))
   \<and> map (\<lambda>(st, tr). (st, order_of tr)) (fst (poll n (snd (AddTasks (Reset l) [] cs)) w))
       = map (\<lambda>(st, tr). (st, order_of tr)) (fst (poll n (snd (AddTasks TaskList_new [] cs)) w))
   \<and> task_list (fst (snd (poll n (snd (AddTasks (Reset l) [] cs)) w)))
       = task_list (fst (snd (poll n (snd (AddTasks TaskList_new [] cs)) w)))
   \<and> snd (snd (poll n (snd (AddTasks (Reset l) [] cs)) w))
       = snd (snd (poll n (snd (AddTasks TaskList_new [] cs)) w))
   \<and> equal_id (tasks_completed (fst (snd (poll n (snd (AddTasks (Reset l) [] cs)) w))))
        (tasks_completed (fst (snd (poll n (snd (AddTasks TaskList_new [] cs)) w))))"
proof -
  note a = AddTasks_cong [OF alike_Reset_new, of l "[]" cs]
  from a have al: "alike (snd (AddTasks (Reset l) [] cs)) (snd (AddTasks TaskList_new [] cs))"
    by simp
  note p = poll_cong [OF al, of n w]
  from p have "alike (fst (snd (poll n (snd (AddTasks (Reset l) [] cs)) w)))
                 (fst (snd (poll n (snd (AddTasks TaskList_new [] cs)) w)))"
    by simp
  then have "task_list (fst (snd (poll n (snd (AddTasks (Reset l) [] cs)) w)))
       = task_list (fst (snd (poll n (snd (AddTasks TaskList_new [] cs)) w)))"
    and "equal_id (tasks_completed (fst (snd (poll n (snd (AddTasks (Reset l) [] cs)) w))))
        (tasks_completed (fst (snd (poll n (snd (AddTasks TaskList_new [] cs)) w))))"
    by (simp_all add: alike_def equal_id_iff)
  moreover have "task_list (snd (AddTasks (Reset l) [] cs))
       = task_list (snd (AddTasks TaskList_new [] cs))"
    using al by (simp add: alike_def)
  ultimately show ?thesis using a p by simp
qed

lemma chain_after_reset:
  "tasks_completed (fst (snd (poll 1 (snd (AddTasks (Reset reset_me) [] chain_calls)) ())))
   = TaskID [7, 0]"
  "tasks_completed (fst (snd (poll 1 (snd (AddTasks TaskList_new [] chain_calls)) ())))
   = TaskID [7]"
  "map fst (fst (poll 1 (snd (AddTasks TaskList_new [] chain_calls)) ()))
   = [TaskListStatus_complete]"
  by (simp_all add: chain_calls_def reset_me_def mixed_list_def Reset_def clear_def eval_defs)

theorem C9_Reset_replay_witness:
  "tasks_completed (fst (snd (poll 1 (snd (AddTasks (Reset reset_me) [] chain_calls)) ())))
     = TaskID [7, 0]
   \<and> tasks_completed (fst (snd (poll 1 (snd (AddTasks TaskList_new [] chain_calls)) ())))
     = TaskID [7]
   \<and> equal_id (TaskID [7, 0]) (TaskID [7])
   \<and> map fst (fst (poll 1 (snd (AddTasks (Reset reset_me) [] chain_calls)) ()))
     = [TaskListStatus_complete]"
proof -
  note r = C9_Reset_replay [of reset_me chain_calls 1 "()"]
  have "map fst (fst (poll 1 (snd (AddTasks (Reset reset_me) [] chain_calls)) ()))
        = map fst (map (\<lambda>(st, tr). (st, order_of tr))
            (fst (poll 1 (snd (AddTasks (Reset reset_me) [] chain_calls)) ())))"
    by (simp add: comp_def case_prod_beta)
  also have "\<dots> = map fst (map (\<lambda>(st, tr). (st, order_of tr))
            (fst (poll 1 (snd (AddTasks TaskList_new [] chain_calls)) ())))"
    using r by simp
  also have "\<dots> = [TaskListStatus_complete]"
    using chain_after_reset(3) by (simp add: comp_def case_prod_beta)
  finally show ?thesis using chain_after_reset(1,2) by (simp add: equal_id_def)
qed

section \<open>Bodies that leave a counter of the outside state alone\<close>







section \<open>The log of the probed bodies\<close>

lemma probe_sel:
  "myid (probe j t) = myid t" "dep (probe j t) = dep t" "complete (probe j t) = complete t"
  "func (probe j t) (w, lg) = (fst (func t w), (snd (func t w), lg @ [(j, fst (func t w))]))"
  by (simp_all add: probe_def case_prod_beta)

lemma probe_flag: "(probe j t)\<lparr>complete := True\<rparr> = probe j (t\<lparr>complete := True\<rparr>)"
  by (simp add: probe_def)

lemma probes_Nil: "probes i [] = []"
  by (simp add: probes_def)

lemma probes_Cons: "probes i (t # ts) = probe i t # probes (Suc i) ts"
  by (simp add: probes_def)

lemma visit_probe:
  "visit (probe j t) d (w, lg)
   = (probe j (fst (visit t d w)), fst (snd (visit t d w)),
      (snd (snd (visit t d w)),
       lg @ (case seen_result (visit_seen t d w) of None \<Rightarrow> [] | Some st \<Rightarrow> [(j, st)])))"
proof (cases rule: visit_cases [of d t w])
  case not_ready
  then show ?thesis
    by (simp add: visit_not_ready probe_sel visit_seen_result)
next
  case complete
  then show ?thesis
    using visit_complete [of d "probe j t" "(w, lg)"]
    by (simp add: probe_sel probe_flag visit_seen_result)
next
  case incomplete
  then show ?thesis
    using visit_incomplete [of d "probe j t" "(w, lg)"]
    by (simp add: probe_sel visit_seen_result)
qed

lemma scan_probes:
  "scan (probes i ts) d (w, lg)
   = (probes i (fst (scan ts d w)), fst (snd (scan ts d w)),
      (snd (snd (scan ts d w)), lg @ trace_runs i (scan_trace ts d w)))"
proof (induction ts arbitrary: i d w lg)
  case Nil
  show ?case by (simp add: probes_Nil)
next
  case (Cons t ts)
  show ?case
    by (simp add: probes_Cons visit_probe Cons.IH case_prod_beta)
qed

lemma trace_runs_mem:
  "(j, st) \<in> set (trace_runs i tr)
   \<longleftrightarrow> i \<le> j \<and> j - i < length tr \<and> seen_result (tr ! (j - i)) = Some st"
proof (induction tr arbitrary: i j st)
  case Nil
  show ?case by simp
next
  case (Cons e es)
  show ?case
  proof (cases "j = i")
    case True
    then show ?thesis by (auto simp: Cons.IH split: option.splits)
  next
    case False
    have "(j, st) \<in> set (trace_runs i (e # es)) \<longleftrightarrow> (j, st) \<in> set (trace_runs (Suc i) es)"
      using False by (auto split: option.splits)
    also have "\<dots> \<longleftrightarrow> Suc i \<le> j \<and> j - Suc i < length es
                       \<and> seen_result (es ! (j - Suc i)) = Some st"
      by (rule Cons.IH)
    also have "\<dots> \<longleftrightarrow> i \<le> j \<and> j - i < length (e # es)
                       \<and> seen_result ((e # es) ! (j - i)) = Some st"
    proof (cases "i < j")
      case True
      then obtain m where m: "j - i = Suc m" "j - Suc i = m"
        by (metis Suc_diff_Suc)
      show ?thesis using True m by auto
    next
      case False
      then show ?thesis using \<open>j \<noteq> i\<close> by auto
    qed
    finally show ?thesis .
  qed
qed

lemma trace_runs_sorted: "sorted_wrt (<) (map fst (trace_runs i tr))"
proof (induction tr arbitrary: i)
  case Nil
  show ?case by simp
next
  case (Cons e es)
  have "\<forall>x \<in> set (trace_runs (Suc i) es). i < fst x"
    using trace_runs_mem [of _ _ "Suc i" es] by force
  then show ?case
    using Cons.IH [of "Suc i"] by (auto simp: sorted_wrt_append split: option.splits)
qed

lemma DoAvailable_probed:
  "fst (DoAvailable (probed lst) (w, lg)) = fst (DoAvailable lst w)"
  "task_list (fst (snd (DoAvailable (probed lst) (w, lg))))
   = erase_complete (probes 0 (fst (scan (task_list lst) (tasks_completed lst) w)))"
  "tasks_completed (fst (snd (DoAvailable (probed lst) (w, lg))))
   = tasks_completed (fst (snd (DoAvailable lst w)))"
  "fst (snd (snd (DoAvailable (probed lst) (w, lg)))) = snd (snd (DoAvailable lst w))"
  "snd (snd (snd (DoAvailable (probed lst) (w, lg)))) = lg @ trace_runs 0 (DoAvailable_trace lst w)"
proof -
  have p: "task_list (probed lst) = probes 0 (task_list lst)"
    "tasks_completed (probed lst) = tasks_completed lst"
    by (simp_all add: probed_def)
  have e: "erase_complete (probes i ts) = [] \<longleftrightarrow> erase_complete ts = []" for i and ts :: "'a BaseTask list"
    by (induction ts arbitrary: i) (simp_all add: probes_Nil probes_Cons Task_IsComplete_def probe_sel)
  show "task_list (fst (snd (DoAvailable (probed lst) (w, lg))))
        = erase_complete (probes 0 (fst (scan (task_list lst) (tasks_completed lst) w)))"
    by (simp add: DoAvailable_tasks p scan_probes)
  then show "fst (DoAvailable (probed lst) (w, lg)) = fst (DoAvailable lst w)"
    by (simp add: DoAvailable_status DoAvailable_tasks e)
  show "tasks_completed (fst (snd (DoAvailable (probed lst) (w, lg))))
        = tasks_completed (fst (snd (DoAvailable lst w)))"
    by (simp add: DoAvailable_done p scan_probes)
  show "fst (snd (snd (DoAvailable (probed lst) (w, lg)))) = snd (snd (DoAvailable lst w))"
    by (simp add: DoAvailable_world p scan_probes)
  show "snd (snd (snd (DoAvailable (probed lst) (w, lg))))
        = lg @ trace_runs 0 (DoAvailable_trace lst w)"
    by (simp add: DoAvailable_world p scan_probes DoAvailable_trace_def)
qed

lemma DoAvailable_runs_trace:
  "DoAvailable_runs lst w = trace_runs 0 (DoAvailable_trace lst w)"
  by (simp add: DoAvailable_runs_def DoAvailable_probed(5))

section \<open>When a body is called\<close>

lemma scan_trace_take: "scan_trace (take i ts) d w = take i (scan_trace ts d w)"
proof (induction ts arbitrary: i d w)
  case Nil
  show ?case by simp
next
  case (Cons t ts)
  show ?case by (cases i) (simp_all add: Cons.IH case_prod_beta)
qed

lemma marked_runs:
  assumes "i \<le> length ts"
  shows "bits (marked d (take i (scan_trace ts d w)))
         = bits d \<union> (\<Union>j \<in> {j. j < i \<and> (j, TaskStatus_complete)
                                          \<in> set (trace_runs 0 (scan_trace ts d w))}.
                         bits (myid (ts ! j)))"
proof -
  let ?tr = "scan_trace ts d w"
  have len: "length ?tr = length ts" by (rule length_scan_trace)
  have task: "seen_task (?tr ! j) = ts ! j" if "j < length ts" for j
  proof -
    have "seen_task (?tr ! j) = map seen_task ?tr ! j" using that len by simp
    then show ?thesis by (simp add: scan_trace_tasks)
  qed
  have "{e \<in> set (take i ?tr). seen_result e = Some TaskStatus_complete}
        = (\<lambda>j. ?tr ! j) ` {j. j < i \<and> (j, TaskStatus_complete) \<in> set (trace_runs 0 ?tr)}"
    (is "?L = ?R")
  proof
    show "?L \<subseteq> ?R"
    proof
      fix e assume "e \<in> ?L"
      then obtain j where "j < length (take i ?tr)" and "take i ?tr ! j = e"
        and "seen_result e = Some TaskStatus_complete"
        by (auto simp: in_set_conv_nth)
      then have "j < i" "j < length ?tr" "?tr ! j = e" by simp_all
      then show "e \<in> ?R"
        using \<open>seen_result e = Some TaskStatus_complete\<close>
        by (auto simp: trace_runs_mem intro!: image_eqI [where x = j])
    qed
    show "?R \<subseteq> ?L"
    proof
      fix e assume "e \<in> ?R"
      then obtain j where j: "j < i" "j < length ?tr"
        "seen_result (?tr ! j) = Some TaskStatus_complete" and e: "e = ?tr ! j"
        by (auto simp: trace_runs_mem)
      have "take i ?tr ! j = e" using j e by simp
      moreover have "j < length (take i ?tr)" using j by simp
      ultimately have "e \<in> set (take i ?tr)" by (metis nth_mem)
      then show "e \<in> ?L" using j e by simp
    qed
  qed
  then have "(\<Union>e \<in> {e \<in> set (take i ?tr). seen_result e = Some TaskStatus_complete}.
                bits (myid (seen_task e)))
             = (\<Union>j \<in> {j. j < i \<and> (j, TaskStatus_complete) \<in> set (trace_runs 0 ?tr)}.
                bits (myid (seen_task (?tr ! j))))"
    by simp
  also have "\<dots> = (\<Union>j \<in> {j. j < i \<and> (j, TaskStatus_complete) \<in> set (trace_runs 0 ?tr)}.
                bits (myid (ts ! j)))"
    using assms task by auto
  finally show ?thesis by (simp add: bits_marked)
qed

text \<open>
  Claim C3: in a call of \<^verbatim>\<open>DoAvailable\<close> the body of the pending task at
  position \<open>i\<close> is called exactly when its dependency is a subset of the
  completed-set that the loop has when it reaches the task (the completed-set
  after the loop has handled the \<open>i\<close> tasks before it), and this set is the
  completed-set the call started with plus the identities of the tasks at
  earlier positions whose body returned complete in this same call. So a body
  never runs while an identity of its dependency is unmarked, and it does run
  when the missing identities were marked earlier in the same scan. The bodies
  are called in the order of the list, each at most once, and the probes change
  neither the status nor the outside state nor the completed-set of the call.
\<close>

theorem C3_called_iff_ready:
  assumes "i < length (task_list lst)"
  shows "((\<exists>st. (i, st) \<in> set (DoAvailable_runs lst w))
          \<longleftrightarrow> CheckDependencies
                (fst (snd (scan (take i (task_list lst)) (tasks_completed lst) w)))
                (dep (task_list lst ! i)))
    \<and> bits (fst (snd (scan (take i (task_list lst)) (tasks_completed lst) w)))
        = bits (tasks_completed lst)
          \<union> (\<Union>j \<in> {j. j < i \<and> (j, TaskStatus_complete) \<in> set (DoAvailable_runs lst w)}.
                bits (myid (task_list lst ! j)))
    \<and> sorted_wrt (<) (map fst (DoAvailable_runs lst w))
    \<and> fst (DoAvailable (probed lst) (w, [])) = fst (DoAvailable lst w)
    \<and> fst (snd (snd (DoAvailable (probed lst) (w, [])))) = snd (snd (DoAvailable lst w))
    \<and> tasks_completed (fst (snd (DoAvailable (probed lst) (w, []))))
        = tasks_completed (fst (snd (DoAvailable lst w)))"
proof -
  let ?ts = "task_list lst" and ?d = "tasks_completed lst"
  let ?tr = "scan_trace ?ts ?d w"
  have runs: "DoAvailable_runs lst w = trace_runs 0 ?tr"
    by (simp add: DoAvailable_runs_trace DoAvailable_trace_def)
  have len: "length ?tr = length ?ts" by (rule length_scan_trace)
  have at: "fst (snd (scan (take i ?ts) ?d w)) = marked ?d (take i ?tr)"
    by (simp add: scan_done_marked scan_trace_take)
  have "(\<exists>st. (i, st) \<in> set (trace_runs 0 ?tr)) \<longleftrightarrow> seen_result (?tr ! i) \<noteq> None"
    using assms len by (simp add: trace_runs_mem)
  also have "\<dots> \<longleftrightarrow> CheckDependencies (seen_done (?tr ! i)) (dep (?ts ! i))"
    by (rule scan_trace_result [OF assms])
  also have "seen_done (?tr ! i) = marked ?d (take i ?tr)"
    by (rule scan_trace_done [OF assms])
  finally have one: "(\<exists>st. (i, st) \<in> set (DoAvailable_runs lst w))
          \<longleftrightarrow> CheckDependencies (fst (snd (scan (take i ?ts) ?d w))) (dep (?ts ! i))"
    by (simp add: runs at)
  have two: "bits (fst (snd (scan (take i ?ts) ?d w)))
        = bits ?d \<union> (\<Union>j \<in> {j. j < i \<and> (j, TaskStatus_complete) \<in> set (DoAvailable_runs lst w)}.
                bits (myid (?ts ! j)))"
    unfolding at runs using assms by (intro marked_runs) simp
  have three: "sorted_wrt (<) (map fst (DoAvailable_runs lst w))"
    unfolding runs by (rule trace_runs_sorted)
  show ?thesis
    using one two three DoAvailable_probed(1,3,4) [of lst w "[]"] by blast
qed


lemmas probe_defs = probed_def probes_def probe_def DoAvailable_runs_def poll_runs_def

lemma plain_A_runs:
  "DoAvailable_runs plain_A ()
   = [(0, TaskStatus_complete), (1, TaskStatus_complete), (2, TaskStatus_complete)]"
  "2 < length (task_list plain_A)"
  "\<not> CheckDependencies (tasks_completed plain_A) (dep (task_list plain_A ! 2))"
  by (simp_all add: plain_A_def scenario_A_def probe_defs eval_defs)

lemma orphan_list_runs:
  "DoAvailable_runs orphan_list () = []"
  "0 < length (task_list orphan_list)"
  by (simp_all add: orphan_list_def probe_defs eval_defs)

theorem C3_called_iff_ready_witness:
  "\<not> CheckDependencies (tasks_completed plain_A) (dep (task_list plain_A ! 2))
   \<and> DoAvailable_runs plain_A ()
       = [(0, TaskStatus_complete), (1, TaskStatus_complete), (2, TaskStatus_complete)]
   \<and> CheckDependencies
        (fst (snd (scan (take 2 (task_list plain_A)) (tasks_completed plain_A) ())))
        (dep (task_list plain_A ! 2))
   \<and> DoAvailable_runs orphan_list () = []
   \<and> \<not> CheckDependencies
        (fst (snd (scan (take 0 (task_list orphan_list)) (tasks_completed orphan_list) ())))
        (dep (task_list orphan_list ! 0))"
proof -
  note a = C3_called_iff_ready [OF plain_A_runs(2), of "()", THEN conjunct1]
  note o = C3_called_iff_ready [OF orphan_list_runs(2), of "()", THEN conjunct1]
  have "\<exists>st. (2, st) \<in> set (DoAvailable_runs plain_A ())"
    by (simp add: plain_A_runs(1))
  then have ready: "CheckDependencies
        (fst (snd (scan (take 2 (task_list plain_A)) (tasks_completed plain_A) ())))
        (dep (task_list plain_A ! 2))"
    using a by blast
  have "\<not> (\<exists>st. (0, st) \<in> set (DoAvailable_runs orphan_list ()))"
    by (simp add: orphan_list_runs(1))
  then have wait: "\<not> CheckDependencies
        (fst (snd (scan (take 0 (task_list orphan_list)) (tasks_completed orphan_list) ())))
        (dep (task_list orphan_list ! 0))"
    using o by blast
  show ?thesis
    using plain_A_runs(1,3) orphan_list_runs(1) ready wait by (intro conjI)
qed

section \<open>Which tasks a call retires\<close>

lemma trace_runs_tag: "(j, st) \<in> set (trace_runs i tr) \<Longrightarrow> i \<le> j"
  by (simp add: trace_runs_mem)

lemma enumerate_tag: "(j, t) \<in> set (enumerate i ts) \<Longrightarrow> i \<le> j"
  by (auto simp: in_set_enumerate_eq)

lemma survivors_runs:
  "erase_complete (fst (scan ts d w))
   = map snd (filter (\<lambda>(j, t). \<not> complete t
                       \<and> (j, TaskStatus_complete) \<notin> set (trace_runs i (scan_trace ts d w)))
                (enumerate i ts))"
proof (induction ts arbitrary: i d w)
  case Nil
  show ?case by simp
next
  case (Cons t ts)
  obtain t' d' w' where v: "visit t d w = (t', d', w')" by (cases "visit t d w")
  define hd_runs where
    "hd_runs = (case seen_result (visit_seen t d w) of None \<Rightarrow> [] | Some st \<Rightarrow> [(i, st)])"
  define rest where "rest = trace_runs (Suc i) (scan_trace ts d' w')"
  define keep where
    "keep = (\<lambda>rs (x :: nat \<times> 'a BaseTask). \<not> complete (snd x) \<and> (fst x, TaskStatus_complete) \<notin> set rs)"
  have runs: "trace_runs i (scan_trace (t # ts) d w) = hd_runs @ rest"
    by (simp add: v hd_runs_def rest_def)
  have hd_tag: "(j, st) \<in> set hd_runs \<Longrightarrow> j = i" for j st
    by (auto simp: hd_runs_def split: option.splits)
  have tail: "filter (keep (hd_runs @ rest)) (enumerate (Suc i) ts)
              = filter (keep rest) (enumerate (Suc i) ts)"
  proof (rule filter_cong [OF refl])
    fix x assume x: "x \<in> set (enumerate (Suc i) ts)"
    then have "Suc i \<le> fst x" using enumerate_tag [of "fst x" "snd x" "Suc i" ts] by simp
    then have "(fst x, TaskStatus_complete) \<notin> set hd_runs"
      using hd_tag [of "fst x" TaskStatus_complete] by auto
    then show "keep (hd_runs @ rest) x = keep rest x"
      by (simp add: keep_def)
  qed
  have norest: "(i, TaskStatus_complete) \<notin> set rest"
    using trace_runs_tag [of i TaskStatus_complete "Suc i" "scan_trace ts d' w'"]
    by (auto simp: rest_def)
  have flag: "complete t' \<longleftrightarrow> complete t \<or> (i, TaskStatus_complete) \<in> set hd_runs"
  proof (cases rule: visit_cases [of d t w])
    case not_ready
    then show ?thesis using v by (simp add: hd_runs_def visit_seen_result)
  next
    case complete
    then show ?thesis using v by (simp add: hd_runs_def visit_seen_result)
  next
    case incomplete
    then show ?thesis using v by (simp add: hd_runs_def visit_seen_result)
  qed
  have same: "t' = t" if "\<not> complete t'"
  proof (cases rule: visit_cases [of d t w])
    case not_ready
    then show ?thesis using v by simp
  next
    case complete
    then show ?thesis using v that by simp
  next
    case incomplete
    then show ?thesis using v by simp
  qed
  have IH: "erase_complete (fst (scan ts d' w'))
            = map snd (filter (keep rest) (enumerate (Suc i) ts))"
    using Cons.IH [of d' w' "Suc i"] by (simp add: keep_def rest_def case_prod_beta)
  have lhs: "erase_complete (fst (scan (t # ts) d w))
             = (if complete t' then [] else [t']) @ erase_complete (fst (scan ts d' w'))"
    by (simp add: v case_prod_beta Task_IsComplete_def)
  have khd: "keep (hd_runs @ rest) (i, t) \<longleftrightarrow> \<not> complete t'"
    using flag norest by (auto simp: keep_def)
  have rhs: "map snd (filter (keep (hd_runs @ rest)) (enumerate i (t # ts)))
             = (if complete t' then [] else [t])
               @ map snd (filter (keep rest) (enumerate (Suc i) ts))"
    using khd tail by simp
  have "erase_complete (fst (scan (t # ts) d w))
        = map snd (filter (keep (hd_runs @ rest)) (enumerate i (t # ts)))"
    unfolding lhs rhs IH using same by simp
  then show ?case
    by (simp add: runs keep_def case_prod_beta del: scan.simps scan_trace.simps trace_runs.simps)
qed


lemma scan_ids: "map myid (fst (scan ts d w)) = map myid ts"
proof (induction ts arbitrary: d w)
  case Nil
  show ?case by simp
next
  case (Cons t ts)
  have "myid (fst (visit t d w)) = myid t"
    by (cases rule: visit_cases [of d t w]) simp_all
  then show ?case using Cons.IH by (simp add: case_prod_beta)
qed

lemma DoAvailable_throws_ids:
  assumes "DoAvailable_throws lst w i = Some (lst', w')"
  shows "map myid (task_list lst') = map myid (task_list lst)"
proof -
  have "task_list lst'
        = fst (scan (take i (task_list lst)) (tasks_completed lst) w) @ drop i (task_list lst)"
    using assms by (auto simp: DoAvailable_throws_def case_prod_beta split: if_splits)
  then have "map myid (task_list lst')
        = map myid (take i (task_list lst)) @ map myid (drop i (task_list lst))"
    by (simp add: scan_ids)
  then show ?thesis by (simp flip: map_append)
qed

text \<open>
  Claim C6, as stated: in every call of \<^verbatim>\<open>DoAvailable\<close> a task whose body was
  called and returned incomplete stays pending. This fails on a list that an
  earlier call, left by a throw, has flagged without clearing. In \<open>pair_list\<close>
  the first body returns complete and the second throws: the call is left
  before \<^verbatim>\<open>ClearComplete\<close>, and the first task stays pending with its flag set
  (\<open>aborted_list\<close>). In the next call its body is called again, returns
  incomplete, and the task is erased all the same.
\<close>

theorem C6_counterexample:
  "minted 2 aborted_list
   \<and> DoAvailable_throws pair_list 0 1 = Some (aborted_list, 1)
   \<and> map myid (task_list aborted_list) = [Set_id 1, Set_id 2]
   \<and> DoAvailable_runs aborted_list 1 = [(0, TaskStatus_incomplete), (1, TaskStatus_incomplete)]
   \<and> map myid (task_list (fst (snd (DoAvailable aborted_list 1)))) = [Set_id 2]"
proof -
  have t: "DoAvailable_throws pair_list 0 1 = Some (aborted_list, 1)"
    by (simp add: DoAvailable_throws_def pair_list_def aborted_list_def once_body_def eval_defs)
  have "minted 2 pair_list"
    unfolding pair_list_def numeral_2_eq_2
    by (intro minted_AddTask minted_new)
  then have m: "minted 2 aborted_list"
    using t by (rule minted_throws)
  have r: "DoAvailable_runs aborted_list 1
           = [(0, TaskStatus_incomplete), (1, TaskStatus_incomplete)]"
    by (simp add: aborted_list_def once_body_def probe_defs eval_defs)
  have a: "map myid (task_list (fst (snd (DoAvailable aborted_list 1)))) = [Set_id 2]"
    "map myid (task_list aborted_list) = [Set_id 1, Set_id 2]"
    by (simp_all add: aborted_list_def once_body_def eval_defs)
  show ?thesis using t m r a by (intro conjI)
qed

text \<open>
  Claim C6, amended: a call of \<^verbatim>\<open>DoAvailable\<close> that returns removes exactly the
  pending tasks that carry the completion flag after the scan, that is the
  tasks whose body was called in this call and returned complete and the tasks
  that were flagged before the call. Every other task, whether its body was
  called and returned incomplete or was not called, stays pending, unchanged
  and in order, and no pending task is flagged afterwards. On a list without
  flagged pending tasks a task is therefore removed only after its body has
  returned complete in this call. A call that a body leaves by a throw removes
  no task.
\<close>

theorem C6_retired_iff_flagged:
  "task_list (fst (snd (DoAvailable lst w)))
     = map snd (filter (\<lambda>(j, t). \<not> complete t
                           \<and> (j, TaskStatus_complete) \<notin> set (DoAvailable_runs lst w))
                  (enumerate 0 (task_list lst)))
   \<and> (unflagged lst
       \<longrightarrow> task_list (fst (snd (DoAvailable lst w)))
           = map snd (filter (\<lambda>(j, t). (j, TaskStatus_complete) \<notin> set (DoAvailable_runs lst w))
                        (enumerate 0 (task_list lst))))
   \<and> unflagged (fst (snd (DoAvailable lst w)))
   \<and> (DoAvailable_throws lst w i = Some (lst', w')
       \<longrightarrow> map myid (task_list lst') = map myid (task_list lst))"
proof (intro conjI impI)
  show a: "task_list (fst (snd (DoAvailable lst w)))
     = map snd (filter (\<lambda>(j, t). \<not> complete t
                           \<and> (j, TaskStatus_complete) \<notin> set (DoAvailable_runs lst w))
                  (enumerate 0 (task_list lst)))"
    unfolding DoAvailable_tasks DoAvailable_runs_trace DoAvailable_trace_def
    by (rule survivors_runs)
  show "unflagged (fst (snd (DoAvailable lst w)))"
    by (rule unflagged_DoAvailable)
  show "map myid (task_list lst') = map myid (task_list lst)"
    if "DoAvailable_throws lst w i = Some (lst', w')"
    using that by (rule DoAvailable_throws_ids)
  show "task_list (fst (snd (DoAvailable lst w)))
           = map snd (filter (\<lambda>(j, t). (j, TaskStatus_complete) \<notin> set (DoAvailable_runs lst w))
                        (enumerate 0 (task_list lst)))"
    if u: "unflagged lst"
  proof -
    have "filter (\<lambda>(j, t). \<not> complete t
                           \<and> (j, TaskStatus_complete) \<notin> set (DoAvailable_runs lst w))
                  (enumerate 0 (task_list lst))
          = filter (\<lambda>(j, t). (j, TaskStatus_complete) \<notin> set (DoAvailable_runs lst w))
                  (enumerate 0 (task_list lst))"
    proof (rule filter_cong [OF refl])
      fix x assume "x \<in> set (enumerate 0 (task_list lst))"
      then have "fst x < length (task_list lst)" "task_list lst ! fst x = snd x"
        by (simp_all add: in_set_enumerate_eq)
      then have "snd x \<in> set (task_list lst)"
        using nth_mem [of "fst x" "task_list lst"] by simp
      then have "\<not> complete (snd x)"
        using u by (simp add: unflagged_def list_all_iff)
      then show "(case x of (j, t) \<Rightarrow> \<not> complete t
                           \<and> (j, TaskStatus_complete) \<notin> set (DoAvailable_runs lst w))
               = (case x of (j, t) \<Rightarrow> (j, TaskStatus_complete) \<notin> set (DoAvailable_runs lst w))"
        by (simp add: case_prod_beta)
    qed
    then show ?thesis using a by simp
  qed
qed

lemma mixed_list_runs:
  "unflagged mixed_list"
  "DoAvailable_runs mixed_list () = [(0, TaskStatus_complete), (1, TaskStatus_incomplete)]"
  "map myid (task_list mixed_list) = [Set_id 1, Set_id 2, Set_id 3]"
  "enumerate 0 (task_list mixed_list)
   = [(0, task_list mixed_list ! 0), (1, task_list mixed_list ! 1), (2, task_list mixed_list ! 2)]"
  by (simp_all add: mixed_list_def probe_defs eval_defs)

theorem C6_retired_iff_flagged_witness:
  "unflagged mixed_list
   \<and> DoAvailable_runs mixed_list () = [(0, TaskStatus_complete), (1, TaskStatus_incomplete)]
   \<and> map myid (task_list mixed_list) = [Set_id 1, Set_id 2, Set_id 3]
   \<and> task_list (fst (snd (DoAvailable mixed_list ())))
       = [task_list mixed_list ! 1, task_list mixed_list ! 2]
   \<and> DoAvailable_throws pair_list 0 1 = Some (aborted_list, 1)
   \<and> map myid (task_list aborted_list) = map myid (task_list pair_list)"
proof -
  note w = C6_retired_iff_flagged [of mixed_list "()" 0 mixed_list "()"]
  have "task_list (fst (snd (DoAvailable mixed_list ())))
        = map snd (filter (\<lambda>(j, t). (j, TaskStatus_complete) \<notin> set (DoAvailable_runs mixed_list ()))
                        (enumerate 0 (task_list mixed_list)))"
    using w mixed_list_runs(1) by blast
  then have p: "task_list (fst (snd (DoAvailable mixed_list ())))
       = [task_list mixed_list ! 1, task_list mixed_list ! 2]"
    by (simp add: mixed_list_runs(2,4))
  have t: "DoAvailable_throws pair_list 0 1 = Some (aborted_list, 1)"
    by (simp add: DoAvailable_throws_def pair_list_def aborted_list_def once_body_def eval_defs)
  have i: "map myid (task_list aborted_list) = map myid (task_list pair_list)"
    using C6_retired_iff_flagged [of pair_list 0 1 aborted_list 1] t by blast
  show ?thesis using mixed_list_runs(1,2,3) p t i by (intro conjI)
qed

section \<open>The identity of the next task\<close>

lemma int_wrap_id: "- 2147483648 \<le> x \<Longrightarrow> x \<le> 2147483647 \<Longrightarrow> int_wrap x = x"
  by (simp add: int_wrap_def)

lemma DoAvailable_throws_frame:
  assumes "DoAvailable_throws lst w i = Some (lst', w')"
  shows "tasks_added lst' = tasks_added lst" and "dependencies lst' = dependencies lst"
  using assms
  by (auto simp: DoAvailable_throws_def case_prod_beta split: if_splits)

lemma minted_added: "minted k lst \<Longrightarrow> int k \<le> INT_MAX \<longrightarrow> tasks_added lst = int k"
proof (induction rule: minted.induct)
  case minted_new
  show ?case by (simp add: TaskList_new_def)
next
  case (minted_Reset k lst)
  show ?case by (simp add: Reset_def)
next
  case (minted_AddTask k lst f d)
  show ?case
  proof
    assume b: "int (Suc k) \<le> INT_MAX"
    then have "tasks_added lst = int k" using minted_AddTask.IH by simp
    then show "tasks_added (snd (AddTask lst f d)) = int (Suc k)"
      using b by (simp add: AddTask_snd int_wrap_id INT_MAX_def)
  qed
next
  case (minted_DoAvailable k lst w)
  then show ?case by (simp add: DoAvailable_frame)
next
  case (minted_throws k lst w i lst' w')
  then show ?case by (simp add: DoAvailable_throws_frame)
qed

lemma minted_drained: "minted k (drained k)"
  by (induction k) (auto intro: minted.intros)

text \<open>
  Claim C8, as stated: for every \<open>k \<ge> 1\<close> the \<open>k\<close>-th call of \<^verbatim>\<open>AddTask\<close> since
  construction returns the identity built from \<open>k\<close>. The counter is an \<^verbatim>\<open>int\<close>:
  on a list that has seen \<open>2^31 - 1\<close> calls (here each followed by a call of
  \<^verbatim>\<open>DoAvailable\<close> that drains the list) the counter is \<open>INT_MAX\<close>, the sum
  \<^verbatim>\<open>_tasks_added + 1\<close> is not \<open>2^31\<close>, and call number \<open>2^31\<close> does not return the
  identity built from \<open>2^31\<close>.
\<close>

theorem C8_counterexample:
  "minted 2147483647 (drained 2147483647)
   \<and> tasks_added (drained 2147483647) = INT_MAX
   \<and> fst (AddTask (drained 2147483647) (\<lambda>w. (TaskStatus_complete, w)) (Set_id 0))
       = Set_id (- 2147483648)
   \<and> \<not> equal_id
         (fst (AddTask (drained 2147483647) (\<lambda>w. (TaskStatus_complete, w)) (Set_id 0)))
         (Set_id 2147483648)"
proof -
  have m: "minted 2147483647 (drained 2147483647)" by (rule minted_drained)
  have n: "tasks_added (drained 2147483647) = INT_MAX"
    using minted_added [OF m] by (simp add: INT_MAX_def)
  have i: "fst (AddTask (drained 2147483647) (\<lambda>w. (TaskStatus_complete, w)) (Set_id 0))
           = Set_id (- 2147483648)"
    by (simp add: AddTask_fst n INT_MAX_def int_wrap_def)
  have "bits (Set_id (- 2147483648)) = {}"
    by (simp add: Set_id_def bits_def)
  moreover have "bits (Set_id 2147483648) = {2147483647}"
    using bits_Set_id [of 2147483648] by simp
  ultimately have "\<not> equal_id (Set_id (- 2147483648)) (Set_id 2147483648)"
    by (simp add: equal_id_iff)
  then show ?thesis using m n i by simp
qed

text \<open>
  Claim C8, amended: when \<open>k\<close> calls of \<^verbatim>\<open>AddTask\<close> have been made on a list since
  it was constructed or last reset, with any calls of \<^verbatim>\<open>DoAvailable\<close> in between,
  and \<open>k + 1 \<le> INT_MAX = 2^31 - 1\<close>, then call number \<open>k + 1\<close> returns the
  identity built from the index \<open>k + 1\<close>, whatever its arguments and whatever
  is pending, and appends one unflagged task with this identity and the given
  dependency and body. This identity has the single bit \<open>k\<close>, so the identities
  increase with the number of the call and each differs from all earlier ones.
\<close>

theorem C8_AddTask_identity:
  assumes "minted k lst" and "int k < INT_MAX"
  shows "AddTask lst f d
         = (Set_id (int k + 1),
            lst\<lparr>task_list := task_list lst
                   @ [\<lparr>myid = Set_id (int k + 1), dep = d, complete = False, func = f\<rparr>],
                tasks_added := int k + 1\<rparr>)
    \<and> minted (Suc k) (snd (AddTask lst f d))
    \<and> bits (Set_id (int k + 1)) = {k}
    \<and> (\<forall>j<k. \<not> equal_id (Set_id (int j + 1)) (Set_id (int k + 1)))"
proof -
  have n: "tasks_added lst = int k"
    using minted_added [OF assms(1)] assms(2) by simp
  have w: "int_wrap (int k + 1) = int k + 1"
    using assms(2) by (intro int_wrap_id) (simp_all add: INT_MAX_def)
  have a: "AddTask lst f d
         = (Set_id (int k + 1),
            lst\<lparr>task_list := task_list lst
                   @ [\<lparr>myid = Set_id (int k + 1), dep = d, complete = False, func = f\<rparr>],
                tasks_added := int k + 1\<rparr>)"
    by (simp add: AddTask_def Let_def n w)
  have b: "bits (Set_id (int j + 1)) = {j}" for j
    using bits_Set_id [of "int j + 1"] by simp
  have "\<forall>j<k. \<not> equal_id (Set_id (int j + 1)) (Set_id (int k + 1))"
    by (simp add: equal_id_iff b)
  moreover have "minted (Suc k) (snd (AddTask lst f d))"
    using assms(1) by (rule minted_AddTask)
  ultimately show ?thesis using a b by blast
qed

lemma plain_A_drained: "minted 3 (fst (snd (DoAvailable plain_A ())))"
  unfolding plain_A_def scenario_A_def case_prod_beta numeral_3_eq_3
  by (intro minted_DoAvailable minted_AddTask minted_new)

theorem C8_AddTask_identity_witness:
  "minted 3 (fst (snd (DoAvailable plain_A ())))
   \<and> task_list (fst (snd (DoAvailable plain_A ()))) = []
   \<and> fst (AddTask (fst (snd (DoAvailable plain_A ()))) (\<lambda>w. (TaskStatus_incomplete, w))
            (Set_id 9)) = Set_id 4
   \<and> bits (Set_id 4) = {3}"
proof -
  have b: "int 3 < INT_MAX" by (simp add: INT_MAX_def)
  have e: "task_list (fst (snd (DoAvailable plain_A ()))) = []"
    by (simp add: plain_A_def scenario_A_def eval_defs)
  from C8_AddTask_identity [OF plain_A_drained b, of "\<lambda>w. (TaskStatus_incomplete, w)" "Set_id 9"]
  show ?thesis using plain_A_drained e by simp
qed

section \<open>Polling a task: one scan\<close>






section \<open>Polling a task: repeated calls\<close>




section \<open>Polling a probed list\<close>


















end
